theory Spec2Isabelle
  imports Complex_Main "HOL-Library.Char_ord" "HOL-Library.List_Lexorder" "HOL-Library.Sublist"
    "HOL-Library.Log_Nat"
begin

section \<open>Values shared by the collector and the store\<close>

text \<open>
  The values a Python dict handed to \<^verbatim>\<open>json.dumps\<close> can hold. A dict keeps its
  insertion order, so it is an association list.
\<close>

datatype json =
    JNull
  | JBool bool
  | JInt int
  | JFloat rat
  | JStr string
  | JList "json list"
  | JDict "(string \<times> json) list"

text \<open>
  \<^verbatim>\<open>collector/base.py\<close>, dataclass \<^verbatim>\<open>ProcessInfo\<close>. It has no timestamp field.
  \<^verbatim>\<open>__post_init__\<close> turns a missing \<^verbatim>\<open>extra_metrics\<close> into the empty dict, so the
  field always holds a dict.
\<close>

record ProcessInfo =
  pid :: int
  name :: string
  command_line :: string
  user :: string
  cpu_percent :: rat
  memory_mb :: rat
  extra_metrics :: "(string \<times> json) list"

section \<open>The wall clock\<close>

text \<open>
  A naive \<^verbatim>\<open>datetime\<close> as \<^verbatim>\<open>datetime.now()\<close> returns it, and the standard library's
  \<^verbatim>\<open>isoformat()\<close>: \<^verbatim>\<open>YYYY-MM-DDTHH:MM:SS.ffffff\<close>, the fraction left out when the
  microsecond is 0.
\<close>

record datetime =
  year :: nat
  month :: nat
  day :: nat
  hour :: nat
  minute :: nat
  second :: nat
  microsecond :: nat

definition valid_datetime :: "datetime \<Rightarrow> bool" where
  "valid_datetime d \<longleftrightarrow>
     1 \<le> year d \<and> year d \<le> 9999 \<and> 1 \<le> month d \<and> month d \<le> 12 \<and>
     1 \<le> day d \<and> day d \<le> 31 \<and> hour d < 24 \<and> minute d < 60 \<and> second d < 60 \<and>
     microsecond d < 1000000"

definition digit :: "nat \<Rightarrow> char" where
  "digit n = char_of (48 + n mod 10)"

fun zpad :: "nat \<Rightarrow> nat \<Rightarrow> string" where
  "zpad 0 n = []"
| "zpad (Suc w) n = zpad w (n div 10) @ [digit n]"

definition isoformat :: "datetime \<Rightarrow> string" where
  "isoformat d =
     zpad 4 (year d) @ ''-'' @ zpad 2 (month d) @ ''-'' @ zpad 2 (day d) @ ''T'' @
     zpad 2 (hour d) @ '':'' @ zpad 2 (minute d) @ '':'' @ zpad 2 (second d) @
     (if microsecond d = 0 then [] else ''.'' @ zpad 6 (microsecond d))"

section \<open>The metrics store (database/db\_manager.py)\<close>

text \<open>
  One row of table \<^verbatim>\<open>processes\<close>. Column \<^verbatim>\<open>extra_metrics\<close> is \<^verbatim>\<open>TEXT\<close> without
  \<^verbatim>\<open>NOT NULL\<close>, so it may hold SQL NULL (\<open>None\<close>). The other nullable columns are
  always written from the typed fields of a \<^verbatim>\<open>ProcessInfo\<close> and are kept as plain values.
\<close>

record proc_row =
  id_col :: nat
  timestamp_col :: string
  pid_col :: int
  name_col :: string
  command_line_col :: string
  user_col :: string
  cpu_percent_col :: rat
  memory_mb_col :: rat
  extra_metrics_col :: "string option"

text \<open>
  The table in rowid order, and the counter that \<^verbatim>\<open>AUTOINCREMENT\<close> keeps of the
  largest rowid ever handed out.
\<close>

record database =
  processes :: "proc_row list"
  processes_seq :: nat

definition empty_database :: database where
  "empty_database = \<lparr>processes = [], processes_seq = 0\<rparr>"

text \<open>
  \<^verbatim>\<open>UNIQUE(timestamp, pid)\<close>: whether a stored row collides with a new one on the key.
\<close>

definition same_key :: "string \<Rightarrow> int \<Rightarrow> proc_row \<Rightarrow> bool" where
  "same_key ts p r \<longleftrightarrow> timestamp_col r = ts \<and> pid_col r = p"

text \<open>
  \<^verbatim>\<open>insert_process_info\<close>. The timestamp is read from the wall clock inside the call
  (argument \<open>now\<close> is the value \<^verbatim>\<open>datetime.now()\<close> returns there); \<open>dumps\<close> is
  \<^verbatim>\<open>json.dumps\<close>. \<^verbatim>\<open>INSERT OR REPLACE\<close> deletes the rows that collide on the unique
  key and then inserts the new row under a fresh rowid.
\<close>

definition insert_process_info ::
  "(json \<Rightarrow> string) \<Rightarrow> datetime \<Rightarrow> ProcessInfo \<Rightarrow> database \<Rightarrow> database" where
  "insert_process_info dumps now process_info db =
     (let timestamp = isoformat now;
          extra_metrics_json =
            (if extra_metrics process_info \<noteq> [] then dumps (JDict (extra_metrics process_info))
             else ''{}'');
          row = \<lparr>id_col = Suc (processes_seq db),
                 timestamp_col = timestamp,
                 pid_col = pid process_info,
                 name_col = name process_info,
                 command_line_col = command_line process_info,
                 user_col = user process_info,
                 cpu_percent_col = cpu_percent process_info,
                 memory_mb_col = memory_mb process_info,
                 extra_metrics_col = Some extra_metrics_json\<rparr>
      in \<lparr>processes = filter (\<lambda>r. \<not> same_key timestamp (pid process_info) r) (processes db) @ [row],
          processes_seq = Suc (processes_seq db)\<rparr>)"

text \<open>The stored values of a row, apart from its rowid.\<close>

definition row_of :: "(json \<Rightarrow> string) \<Rightarrow> nat \<Rightarrow> string \<Rightarrow> ProcessInfo \<Rightarrow> proc_row" where
  "row_of dumps i ts p =
     \<lparr>id_col = i, timestamp_col = ts, pid_col = pid p, name_col = name p,
      command_line_col = command_line p, user_col = user p, cpu_percent_col = cpu_percent p,
      memory_mb_col = memory_mb p,
      extra_metrics_col =
        Some (if extra_metrics p \<noteq> [] then dumps (JDict (extra_metrics p)) else ''{}'')\<rparr>"

text \<open>
  What a key of a returned row dict can hold under \<^verbatim>\<open>'extra_metrics'\<close>: the raw column
  (\<^verbatim>\<open>None\<close> or a string) or the value \<^verbatim>\<open>json.loads\<close> produced.
\<close>

datatype py_value = PyNone | PyStr string | PyJson json

text \<open>The dict \<^verbatim>\<open>get_process_data\<close> builds for one row (\<^verbatim>\<open>dict(row)\<close>).\<close>

record process_dict =
  d_id :: nat
  d_timestamp :: string
  d_pid :: int
  d_name :: string
  d_command_line :: string
  d_user :: string
  d_cpu_percent :: rat
  d_memory_mb :: rat
  d_extra_metrics :: py_value

text \<open>
  The body of the \<^verbatim>\<open>for row in rows\<close> loop of \<^verbatim>\<open>get_process_data\<close>. \<open>loads\<close> is
  \<^verbatim>\<open>json.loads\<close>, \<open>None\<close> when it raises. The column is parsed only when it is truthy:
  \<^verbatim>\<open>None\<close> and the empty string are left as they are.
\<close>

definition parse_extra_metrics :: "(string \<Rightarrow> json option) \<Rightarrow> string option \<Rightarrow> py_value" where
  "parse_extra_metrics loads col =
     (case col of
        None \<Rightarrow> PyNone
      | Some s \<Rightarrow>
          if s = [] then PyStr []
          else (case loads s of Some v \<Rightarrow> PyJson v | None \<Rightarrow> PyJson (JDict [])))"

definition row_to_dict :: "(string \<Rightarrow> json option) \<Rightarrow> proc_row \<Rightarrow> process_dict" where
  "row_to_dict loads row =
     \<lparr>d_id = id_col row, d_timestamp = timestamp_col row, d_pid = pid_col row,
      d_name = name_col row, d_command_line = command_line_col row, d_user = user_col row,
      d_cpu_percent = cpu_percent_col row, d_memory_mb = memory_mb_col row,
      d_extra_metrics = parse_extra_metrics loads (extra_metrics_col row)\<rparr>"

text \<open>
  The \<^verbatim>\<open>WHERE\<close> clause \<^verbatim>\<open>get_process_data\<close> assembles. \<^verbatim>\<open>pid\<close> and \<^verbatim>\<open>name\<close> are
  tested with \<^verbatim>\<open>is not None\<close>, \<^verbatim>\<open>start_time\<close> and \<^verbatim>\<open>end_time\<close> by truthiness, so
  an empty string adds no condition. \<^verbatim>\<open>name = ?\<close> and the timestamp comparisons use
  SQLite's default \<^verbatim>\<open>BINARY\<close> collation: equality and order of the bytes.
\<close>

definition where_clause ::
  "int option \<Rightarrow> string option \<Rightarrow> string option \<Rightarrow> string option \<Rightarrow> proc_row \<Rightarrow> bool" where
  "where_clause pid_q name_q start_time end_time r \<longleftrightarrow>
     (case pid_q of None \<Rightarrow> True | Some p \<Rightarrow> pid_col r = p) \<and>
     (case name_q of None \<Rightarrow> True | Some n \<Rightarrow> name_col r = n) \<and>
     (case start_time of None \<Rightarrow> True | Some s \<Rightarrow> s = [] \<or> timestamp_col r \<ge> s) \<and>
     (case end_time of None \<Rightarrow> True | Some e \<Rightarrow> e = [] \<or> timestamp_col r \<le> e)"

text \<open>
  \<^verbatim>\<open>get_process_data\<close>. \<^verbatim>\<open>ORDER BY timestamp\<close> leaves the order of rows with equal
  timestamps open; the model keeps them in rowid order.
\<close>

definition get_process_data ::
  "(string \<Rightarrow> json option) \<Rightarrow> database \<Rightarrow> int option \<Rightarrow> string option \<Rightarrow> string option \<Rightarrow>
   string option \<Rightarrow> process_dict list" where
  "get_process_data loads db pid_q name_q start_time end_time =
     map (row_to_dict loads)
       (sort_key timestamp_col
          (filter (where_clause pid_q name_q start_time end_time) (processes db)))"

text \<open>
  \<^verbatim>\<open>get_all_pids\<close>: \<^verbatim>\<open>SELECT DISTINCT pid ... ORDER BY pid\<close>, restricted by
  \<^verbatim>\<open>name = ?\<close> when \<^verbatim>\<open>name\<close> is truthy.
\<close>

definition get_all_pids :: "database \<Rightarrow> string option \<Rightarrow> int list" where
  "get_all_pids db name_q =
     (case name_q of
        None \<Rightarrow> sort (remdups (map pid_col (processes db)))
      | Some n \<Rightarrow>
          if n = [] then sort (remdups (map pid_col (processes db)))
          else sort (remdups (map pid_col (filter (\<lambda>r. name_col r = n) (processes db)))))"

text \<open>
  A small store used in the examples below: two samples of pid 7 and one of pid 8, whose
  \<^verbatim>\<open>extra_metrics\<close> columns hold an empty JSON object, NULL and the empty string.
\<close>

definition example_store :: database where
  "example_store =
     \<lparr>processes =
        [\<lparr>id_col = 1, timestamp_col = ''2025-01-02T03:04:05'', pid_col = 7,
           name_col = ''Chrome'', command_line_col = '''', user_col = ''N/A'',
           cpu_percent_col = 1, memory_mb_col = 10, extra_metrics_col = Some ''{}''\<rparr>,
         \<lparr>id_col = 2, timestamp_col = ''2025-01-02T03:04:05'', pid_col = 8,
           name_col = ''idea'', command_line_col = '''', user_col = ''N/A'',
           cpu_percent_col = 1, memory_mb_col = 10, extra_metrics_col = None\<rparr>,
         \<lparr>id_col = 3, timestamp_col = ''2025-01-02T03:04:10'', pid_col = 7,
           name_col = ''Chrome'', command_line_col = '''', user_col = ''N/A'',
           cpu_percent_col = 1, memory_mb_col = 10, extra_metrics_col = Some []\<rparr>],
      processes_seq = 3\<rparr>"

section \<open>Case folding and the watch-list (ui/monitor\_window.py)\<close>

text \<open>
  \<^verbatim>\<open>str.lower()\<close> and \<^verbatim>\<open>str.strip()\<close> on ASCII text: \<open>A\<close>..\<open>Z\<close> go to \<open>a\<close>..\<open>z\<close>,
  every other character is left alone; the white space stripped is the ASCII one.
\<close>

definition lower_char :: "char \<Rightarrow> char" where
  "lower_char c =
     (let n = (of_char c :: nat) in if 65 \<le> n \<and> n \<le> 90 then char_of (n + 32) else c)"

definition lower :: "string \<Rightarrow> string" where
  "lower s = map lower_char s"

definition is_space :: "char \<Rightarrow> bool" where
  "is_space c =
     (let n = (of_char c :: nat) in (9 \<le> n \<and> n \<le> 13) \<or> (28 \<le> n \<and> n \<le> 32))"

definition strip :: "string \<Rightarrow> string" where
  "strip s = rev (dropWhile is_space (rev (dropWhile is_space s)))"

text \<open>
  The de-duplication loop of \<^verbatim>\<open>load_config\<close>: \<open>seen\<close> is the set of lowered names met so
  far, \<open>unique_processes\<close> the names kept.
\<close>

fun unique_loop :: "string list \<Rightarrow> string set \<Rightarrow> string list \<Rightarrow> string list" where
  "unique_loop [] seen unique_processes = unique_processes"
| "unique_loop (proc # rest) seen unique_processes =
     (let proc_lower = lower proc in
      if proc_lower \<notin> seen then unique_loop rest (insert proc_lower seen) (unique_processes @ [proc])
      else unique_loop rest seen unique_processes)"

text \<open>
  \<^verbatim>\<open>load_config\<close>: the rows of the monitored table after the call. The table is resized to
  the de-duplicated list and every row is overwritten, so its former rows are gone.
\<close>

definition load_config :: "string list \<Rightarrow> string list \<Rightarrow> string list" where
  "load_config monitored_processes monitored_table = unique_loop monitored_processes {} []"

text \<open>
  \<^verbatim>\<open>add_process\<close>: the text of the input field is stripped; an empty name and a name
  already present up to case leave the table as it is, any other name is appended.
\<close>

definition add_process :: "string \<Rightarrow> string list \<Rightarrow> string list" where
  "add_process text monitored_table =
     (let process_name = strip text in
      if process_name = [] then monitored_table
      else if list_ex (\<lambda>t. lower t = lower process_name) monitored_table then monitored_table
      else monitored_table @ [process_name])"

text \<open>
  \<^verbatim>\<open>_add_process_to_monitor\<close>: the name is taken from row \<open>row\<close> of the running table
  (no item there: nothing is added). Returns whether a row was added, and the table.
\<close>

definition add_process_to_monitor ::
  "string list \<Rightarrow> nat \<Rightarrow> string list \<Rightarrow> bool \<times> string list" where
  "add_process_to_monitor running_table row monitored_table =
     (if row \<ge> length running_table then (False, monitored_table)
      else
        let new_name = running_table ! row in
        if list_ex (\<lambda>t. lower t = lower new_name) monitored_table then (False, monitored_table)
        else (True, monitored_table @ [new_name]))"

text \<open>What the user can do to the watch-list, and a session of such actions.\<close>

datatype watch_action =
    LoadConfig "string list"
  | AddProcess string
  | AddFromRunning "string list" nat

fun apply_action :: "watch_action \<Rightarrow> string list \<Rightarrow> string list" where
  "apply_action (LoadConfig cfg) t = load_config cfg t"
| "apply_action (AddProcess text) t = add_process text t"
| "apply_action (AddFromRunning running row) t = snd (add_process_to_monitor running row t)"

definition run_actions :: "watch_action list \<Rightarrow> string list \<Rightarrow> string list" where
  "run_actions acts t = fold apply_action acts t"

section \<open>The list of running processes (ui/monitor\_window.py)\<close>

text \<open>
  An instance of a subclass of Python's \<^verbatim>\<open>Exception\<close> with its message: what the calls
  into psutil, SQLite and the file system raise.
\<close>

datatype exn = Exception string

text \<open>What a refresh does to the rows of the running table: the row index and its text.\<close>

datatype table_event = RemoveRow nat string | InsertRow nat string

fun event_name :: "table_event \<Rightarrow> string" where
  "event_name (RemoveRow row text) = text"
| "event_name (InsertRow row text) = text"

fun is_removal :: "table_event \<Rightarrow> bool" where
  "is_removal (RemoveRow row text) = True"
| "is_removal (InsertRow row text) = False"

text \<open>
  The loop that fills the dict \<^verbatim>\<open>process_names_seen\<close> (lowered name to first-seen name);
  the dict keeps its insertion order.
\<close>

fun names_seen_loop :: "ProcessInfo list \<Rightarrow> (string \<times> string) list \<Rightarrow> (string \<times> string) list" where
  "names_seen_loop [] process_names_seen = process_names_seen"
| "names_seen_loop (proc # rest) process_names_seen =
     (let name_lower = lower (name proc) in
      if map_of process_names_seen name_lower = None
      then names_seen_loop rest (process_names_seen @ [(name_lower, name proc)])
      else names_seen_loop rest process_names_seen)"

text \<open>\<^verbatim>\<open>sorted(process_names_seen.values(), key=lambda n: n.lower())\<close>, a stable sort.\<close>

definition unique_names :: "ProcessInfo list \<Rightarrow> string list" where
  "unique_names new_processes = sort_key lower (map snd (names_seen_loop new_processes []))"

definition remove_row :: "nat \<Rightarrow> string list \<Rightarrow> string list" where
  "remove_row row t = take row t @ drop (Suc row) t"

definition insert_row :: "nat \<Rightarrow> string \<Rightarrow> string list \<Rightarrow> string list" where
  "insert_row row text t = take row t @ text # drop row t"

text \<open>One pass of \<^verbatim>\<open>for row in reversed(rows_to_remove): removeRow(row)\<close>.\<close>

definition remove_step ::
  "nat \<Rightarrow> string list \<times> table_event list \<Rightarrow> string list \<times> table_event list" where
  "remove_step row st = (remove_row row (fst st), snd st @ [RemoveRow row (fst st ! row)])"

text \<open>
  The row a new name goes to: the first row whose lowered text is greater than the lowered
  name, the end of the table when there is none.
\<close>

definition insert_position :: "string \<Rightarrow> string list \<Rightarrow> nat" where
  "insert_position new_name t =
     length (takeWhile (\<lambda>text. \<not> lower text > lower new_name) t)"

text \<open>One pass of the loop \<^verbatim>\<open>for name in unique_names\<close> that adds the new names.\<close>

definition add_step ::
  "string set \<Rightarrow> string \<Rightarrow> string list \<times> table_event list \<Rightarrow> string list \<times> table_event list" where
  "add_step names_to_add new_name st =
     (if lower new_name \<in> names_to_add then
        let insert_row_at = insert_position new_name (fst st)
        in (insert_row insert_row_at new_name (fst st),
            snd st @ [InsertRow insert_row_at new_name])
      else st)"

text \<open>
  \<^verbatim>\<open>refresh_running_processes\<close>. \<open>collector\<close> is \<open>None\<close> when the collector is not yet
  there, otherwise what \<^verbatim>\<open>get_process_list_fast()\<close> does in this tick: raise, or return
  the live processes. The result is the running table after the tick and the row
  operations performed on it, in order. An exception is caught before any row is touched.
\<close>

definition refresh_running_processes ::
  "bool \<Rightarrow> (exn + ProcessInfo list) option \<Rightarrow> string list \<Rightarrow> string list \<times> table_event list" where
  "refresh_running_processes monitoring collector running_table =
     (if monitoring then (running_table, [])
      else case collector of
        None \<Rightarrow> (running_table, [])
      | Some (Inl e) \<Rightarrow> (running_table, [])
      | Some (Inr new_processes) \<Rightarrow>
          let current_names = set (map lower running_table);
              new_names = set (map lower (unique_names new_processes));
              names_to_remove = current_names - new_names;
              names_to_add = new_names - current_names;
              rows_to_remove =
                filter (\<lambda>row. lower (running_table ! row) \<in> names_to_remove)
                  [0..<length running_table];
              removed = fold remove_step (rev rows_to_remove) (running_table, [])
          in fold (add_step names_to_add) (unique_names new_processes) removed)"

text \<open>A process of the fast listing: only pid and name are filled in.\<close>

definition fast_info :: "int \<Rightarrow> string \<Rightarrow> ProcessInfo" where
  "fast_info p n =
     \<lparr>pid = p, name = n, command_line = '''', user = ''N/A'', cpu_percent = 0, memory_mb = 0,
      extra_metrics = []\<rparr>"

section \<open>The sampling loop (ui/monitor\_window.py)\<close>

text \<open>
  What the outside world does during one iteration of the \<^verbatim>\<open>while self.monitoring\<close> loop:
  every call into the collector and the store either raises or returns. The store is the
  state \<open>'s\<close> that the calls of \<^verbatim>\<open>self.db_manager\<close> change; \<open>'y\<close> is a system sample.
\<close>

record ('s, 'y) tick_env =
  get_processes_by_name :: "string \<Rightarrow> exn + ProcessInfo list"
  insert_process_info_call :: "ProcessInfo \<Rightarrow> 's \<Rightarrow> exn + 's"
  get_system_info :: "exn + 'y"
  insert_system_info_call :: "'y \<Rightarrow> 's \<Rightarrow> exn + 's"
  clock :: datetime

datatype loop_event = Printed exn | Slept nat

record 's monitor_state =
  store :: 's
  last_record_time :: "datetime option"
  trace :: "loop_event list"

text \<open>
  \<^verbatim>\<open>for name_lower in monitored_names: processes_to_record.extend(...)\<close>: the first
  call that raises ends the loop.
\<close>

fun collect_processes ::
  "('s, 'y) tick_env \<Rightarrow> string list \<Rightarrow> ProcessInfo list \<Rightarrow> exn + ProcessInfo list" where
  "collect_processes env [] processes_to_record = Inr processes_to_record"
| "collect_processes env (name_lower # rest) processes_to_record =
     (case get_processes_by_name env name_lower of
        Inl e \<Rightarrow> Inl e
      | Inr procs \<Rightarrow> collect_processes env rest (processes_to_record @ procs))"

text \<open>
  \<^verbatim>\<open>for proc_info in processes_to_record: self.db_manager.insert_process_info(proc_info)\<close>:
  every insert commits on its own, so the rows written before a failing insert stay.
\<close>

fun record_processes :: "('s, 'y) tick_env \<Rightarrow> ProcessInfo list \<Rightarrow> 's \<Rightarrow> exn option \<times> 's" where
  "record_processes env [] s = (None, s)"
| "record_processes env (proc_info # rest) s =
     (case insert_process_info_call env proc_info s of
        Inl e \<Rightarrow> (Some e, s)
      | Inr s' \<Rightarrow> record_processes env rest s')"

text \<open>
  The body of the \<^verbatim>\<open>try\<close> block up to the sleep: the exception that left it, if any, and
  the state reached.
\<close>

definition tick ::
  "('s, 'y) tick_env \<Rightarrow> string list \<Rightarrow> 's monitor_state \<Rightarrow> exn option \<times> 's monitor_state" where
  "tick env monitored_names st =
     (case collect_processes env monitored_names [] of
        Inl e \<Rightarrow> (Some e, st)
      | Inr processes_to_record \<Rightarrow>
          (case record_processes env processes_to_record (store st) of
             (Some e, s1) \<Rightarrow> (Some e, st\<lparr>store := s1\<rparr>)
           | (None, s1) \<Rightarrow>
               (case get_system_info env of
                  Inl e \<Rightarrow> (Some e, st\<lparr>store := s1\<rparr>)
                | Inr system_info \<Rightarrow>
                    (case insert_system_info_call env system_info s1 of
                       Inl e \<Rightarrow> (Some e, st\<lparr>store := s1\<rparr>)
                     | Inr s2 \<Rightarrow>
                         (None, st\<lparr>store := s2, last_record_time := Some (clock env)\<rparr>)))))"

text \<open>
  One iteration: the body, then \<^verbatim>\<open>time.sleep(interval)\<close>; in the \<^verbatim>\<open>except Exception\<close>
  branch the exception is printed and the same sleep follows.
\<close>

definition iteration ::
  "nat \<Rightarrow> string list \<Rightarrow> ('s, 'y) tick_env \<Rightarrow> 's monitor_state \<Rightarrow> 's monitor_state" where
  "iteration interval monitored_names env st =
     (case tick env monitored_names st of
        (None, st') \<Rightarrow> st'\<lparr>trace := trace st' @ [Slept interval]\<rparr>
      | (Some e, st') \<Rightarrow> st'\<lparr>trace := trace st' @ [Printed e, Slept interval]\<rparr>)"

text \<open>
  The \<^verbatim>\<open>while self.monitoring\<close> loop of \<^verbatim>\<open>monitor_loop\<close>. The list holds the
  environment of every iteration at whose start the flag was found set; at its end the
  flag was found cleared and the loop returns.
\<close>

fun monitor_loop ::
  "nat \<Rightarrow> string list \<Rightarrow> ('s, 'y) tick_env list \<Rightarrow> 's monitor_state \<Rightarrow> 's monitor_state" where
  "monitor_loop interval monitored_names [] st = st"
| "monitor_loop interval monitored_names (env # envs) st =
     monitor_loop interval monitored_names envs (iteration interval monitored_names env st)"

fun is_sleep :: "loop_event \<Rightarrow> bool" where
  "is_sleep (Slept n) = True"
| "is_sleep (Printed e) = False"

text \<open>
  Two environments for the examples: one where every call succeeds on a store that counts
  its writes, and one where the store refuses the write of a process sample.
\<close>

definition good_env :: "(nat, unit) tick_env" where
  "good_env =
     \<lparr>get_processes_by_name = (\<lambda>n. Inr [fast_info 7 n]),
      insert_process_info_call = (\<lambda>p s. Inr (Suc s)),
      get_system_info = Inr (),
      insert_system_info_call = (\<lambda>y s. Inr (Suc s)),
      clock = \<lparr>year = 2025, month = 1, day = 2, hour = 3, minute = 4, second = 5,
               microsecond = 6\<rparr>\<rparr>"

definition failing_env :: "(nat, unit) tick_env" where
  "failing_env =
     good_env\<lparr>insert_process_info_call := (\<lambda>p s. Inl (Exception ''database is locked''))\<rparr>"

section \<open>Saving the configuration (config/config\_manager.py)\<close>

text \<open>
  The files of the directory that holds the configuration: a path has a content or is
  absent. The steps \<^verbatim>\<open>save_config\<close> performs on them, one system call each.
\<close>

type_synonym file_system = "string \<rightharpoonup> string"

datatype fs_step =
    OpenTruncate string
  | WriteChunk string string
  | Unlink string
  | Move string string

fun do_step :: "fs_step \<Rightarrow> file_system \<Rightarrow> file_system" where
  "do_step (OpenTruncate path) fs = fs(path \<mapsto> [])"
| "do_step (WriteChunk path chunk) fs =
     (case fs path of None \<Rightarrow> fs | Some content \<Rightarrow> fs(path \<mapsto> content @ chunk))"
| "do_step (Unlink path) fs = fs(path := None)"
| "do_step (Move src dst) fs =
     (case fs src of None \<Rightarrow> fs | Some content \<Rightarrow> (fs(src := None))(dst \<mapsto> content))"

text \<open>
  \<^verbatim>\<open>save_config\<close> for an existing parent directory. \<open>chunks\<close> are the pieces in which
  \<^verbatim>\<open>json.dump\<close> writes the document. The temporary file is opened and written, the
  target is unlinked if it exists, then the temporary file is moved onto the target.
\<close>

definition save_config_steps :: "string \<Rightarrow> string list \<Rightarrow> file_system \<Rightarrow> fs_step list" where
  "save_config_steps config_path chunks fs =
     (let temp_path = config_path @ ''.tmp'' in
      OpenTruncate temp_path # map (WriteChunk temp_path) chunks @
      (if fs config_path \<noteq> None then [Unlink config_path] else []) @
      [Move temp_path config_path])"

text \<open>
  The file system when the process dies after the first \<open>k\<close> steps of a save; with \<open>k\<close>
  the number of steps the save has run to its end.
\<close>

definition save_config_upto :: "nat \<Rightarrow> string \<Rightarrow> string list \<Rightarrow> file_system \<Rightarrow> file_system" where
  "save_config_upto k config_path chunks fs =
     fold do_step (take k (save_config_steps config_path chunks fs)) fs"

text \<open>
  The state of the examples: an idle monitor over a store that has counted no write, and a
  directory that holds a configuration saved earlier.
\<close>

definition idle_state :: "nat monitor_state" where
  "idle_state = \<lparr>store = 0, last_record_time = None, trace = []\<rparr>"

definition old_files :: file_system where
  "old_files = [''config.json'' \<mapsto> ''{\"record_interval\": 5}'']"

text \<open>The live processes of the example: "b" twice, in two casings, and "c".\<close>

definition live_processes :: "ProcessInfo list" where
  "live_processes = [fast_info 1 ''b'', fast_info 2 ''c'', fast_info 3 ''B'']"

text \<open>
  What \<^verbatim>\<open>json.dumps\<close> and \<^verbatim>\<open>json.loads\<close> give on the one document of the examples, a
  mapping with a thread count. Other values are not used there.
\<close>

definition threads_metrics :: "(string \<times> json) list" where
  "threads_metrics = [(''num_threads'', JInt 4)]"

definition example_dumps :: "json \<Rightarrow> string" where
  "example_dumps j = (if j = JDict threads_metrics then ''{\"num_threads\": 4}'' else ''null'')"

definition example_loads :: "string \<Rightarrow> json option" where
  "example_loads = map_of [(''{}'', JDict []), (''{\"num_threads\": 4}'', JDict threads_metrics)]"

definition threads_sample :: ProcessInfo where
  "threads_sample =
     \<lparr>pid = 7, name = ''chrome'', command_line = '''', user = ''N/A'', cpu_percent = 1,
      memory_mb = 10, extra_metrics = threads_metrics\<rparr>"

definition example_now :: datetime where
  "example_now =
     \<lparr>year = 2025, month = 1, day = 2, hour = 3, minute = 4, second = 5, microsecond = 6\<rparr>"

section \<open>Down-sampling (ui/analyzer\_window.py)\<close>















section \<open>Properties of the store\<close>

lemma processes_insert:
  "processes (insert_process_info dumps now p db) =
     filter (\<lambda>r. \<not> same_key (isoformat now) (pid p) r) (processes db) @
       [row_of dumps (Suc (processes_seq db)) (isoformat now) p]"
  by (simp add: insert_process_info_def row_of_def Let_def)

lemma seq_insert:
  "processes_seq (insert_process_info dumps now p db) = Suc (processes_seq db)"
  by (simp add: insert_process_info_def Let_def)

lemma same_key_row_of [simp]:
  "same_key ts q (row_of dumps i ts' p) \<longleftrightarrow> ts' = ts \<and> pid p = q"
  by (auto simp: same_key_def row_of_def)

text \<open>
  C1. Two samples of the same pid written at the same clock reading (so with identical
  \<open>(timestamp, pid)\<close>) leave exactly one stored row for that key, whatever the store held
  before, and that row holds the values of the second write.
\<close>

theorem upsert_last_write_wins:
  "pid p1 = pid p2 \<Longrightarrow>
   filter (same_key (isoformat now) (pid p2))
      (processes (insert_process_info dumps now p2 (insert_process_info dumps now p1 db)))
     = [row_of dumps (Suc (Suc (processes_seq db))) (isoformat now) p2]"
  by (simp add: processes_insert seq_insert filter_empty_conv)

text \<open>A witness: two samples of pid 7 written at the same clock reading.\<close>

theorem upsert_last_write_wins_witness:
  "pid \<lparr>pid = 7, name = ''chrome'', command_line = '''', user = ''N/A'', cpu_percent = 1,
         memory_mb = 10, extra_metrics = []\<rparr> =
   pid \<lparr>pid = 7, name = ''chrome'', command_line = '''', user = ''N/A'', cpu_percent = 2,
         memory_mb = 20, extra_metrics = []\<rparr> \<and>
   map (\<lambda>r. (id_col r, cpu_percent_col r, memory_mb_col r))
     (filter (same_key
         (isoformat \<lparr>year = 2025, month = 1, day = 2, hour = 3, minute = 4, second = 5,
                     microsecond = 6\<rparr>) 7)
       (processes
         (insert_process_info (\<lambda>j. [])
            \<lparr>year = 2025, month = 1, day = 2, hour = 3, minute = 4, second = 5, microsecond = 6\<rparr>
            \<lparr>pid = 7, name = ''chrome'', command_line = '''', user = ''N/A'', cpu_percent = 2,
              memory_mb = 20, extra_metrics = []\<rparr>
            (insert_process_info (\<lambda>j. [])
               \<lparr>year = 2025, month = 1, day = 2, hour = 3, minute = 4, second = 5,
                 microsecond = 6\<rparr>
               \<lparr>pid = 7, name = ''chrome'', command_line = '''', user = ''N/A'', cpu_percent = 1,
                 memory_mb = 10, extra_metrics = []\<rparr>
               empty_database))))
     = [(2, 2, 20)]"
  using upsert_last_write_wins
    [of "\<lparr>pid = 7, name = ''chrome'', command_line = '''', user = ''N/A'', cpu_percent = 1,
          memory_mb = 10, extra_metrics = []\<rparr>"
        "\<lparr>pid = 7, name = ''chrome'', command_line = '''', user = ''N/A'', cpu_percent = 2,
          memory_mb = 20, extra_metrics = []\<rparr>"
        "\<lparr>year = 2025, month = 1, day = 2, hour = 3, minute = 4, second = 5, microsecond = 6\<rparr>"
        "\<lambda>j. []" empty_database]
  by (simp add: row_of_def empty_database_def)

subsection \<open>The timestamp is the store's clock reading\<close>

lemma length_zpad [simp]: "length (zpad w n) = w"
  by (induction w arbitrary: n) auto

lemma digit_eq_iff: "digit n = digit m \<longleftrightarrow> n mod 10 = m mod 10"
proof -
  have "(48 + n mod 10) mod 256 = 48 + n mod 10" "(48 + m mod 10) mod 256 = 48 + m mod 10"
    by (simp_all add: mod_less)
  then show ?thesis
    unfolding digit_def char_of_eq_iff by (simp add: take_bit_eq_mod)
qed

lemma zpad_eq_imp: "zpad w n = zpad w m \<Longrightarrow> n mod 10 ^ w = m mod 10 ^ w"
proof (induction w arbitrary: n m)
  case 0
  then show ?case by simp
next
  case (Suc w)
  from Suc.prems have a: "zpad w (n div 10) = zpad w (m div 10)" and b: "n mod 10 = m mod 10"
    by (simp_all add: digit_eq_iff)
  from Suc.IH [OF a] b show ?case
    by (simp add: mod_mult2_eq)
qed

lemma isoformat_inj:
  assumes "valid_datetime a" "valid_datetime b" "isoformat a = isoformat b"
  shows "a = b"
proof -
  let ?f = "\<lambda>d. if microsecond d = 0 then [] else ''.'' @ zpad 6 (microsecond d)"
  from assms(3) have
    y: "zpad 4 (year a) = zpad 4 (year b)" and mo: "zpad 2 (month a) = zpad 2 (month b)"
    and da: "zpad 2 (day a) = zpad 2 (day b)" and h: "zpad 2 (hour a) = zpad 2 (hour b)"
    and mi: "zpad 2 (minute a) = zpad 2 (minute b)" and s: "zpad 2 (second a) = zpad 2 (second b)"
    and f: "?f a = ?f b"
    unfolding isoformat_def by (simp_all del: zpad.simps)
  from f have us: "microsecond a mod 10 ^ 6 = microsecond b mod 10 ^ 6"
    by (auto split: if_splits dest: zpad_eq_imp simp del: zpad.simps)
  from zpad_eq_imp [OF y] zpad_eq_imp [OF mo] zpad_eq_imp [OF da] zpad_eq_imp [OF h]
    zpad_eq_imp [OF mi] zpad_eq_imp [OF s] us assms(1,2)
  show ?thesis
    by (intro datetime.equality) (simp_all add: valid_datetime_def)
qed


lemma length_isoformat: "length (isoformat d) = (if microsecond d = 0 then 19 else 26)"
  by (simp add: isoformat_def del: zpad.simps)

text \<open>
  C10. The row written by \<^verbatim>\<open>insert_process_info\<close> carries the ISO text of the clock reading
  taken inside the call (26 characters with the microseconds, 19 when the microsecond is 0),
  not a value of the sample, which has no timestamp field. Hence the same sample written at
  two different instants gives two rows: the second write does not replace the first.
\<close>

theorem insert_stamps_clock:
  "last (processes (insert_process_info dumps t1 p db)) =
      row_of dumps (Suc (processes_seq db)) (isoformat t1) p \<and>
   length (isoformat t1) = (if microsecond t1 = 0 then 19 else 26) \<and>
   (valid_datetime t1 \<longrightarrow> valid_datetime t2 \<longrightarrow> t1 \<noteq> t2 \<longrightarrow>
      isoformat t1 \<noteq> isoformat t2 \<and>
      filter (\<lambda>r. same_key (isoformat t1) (pid p) r \<or> same_key (isoformat t2) (pid p) r)
        (processes (insert_process_info dumps t2 p (insert_process_info dumps t1 p db)))
        = [row_of dumps (Suc (processes_seq db)) (isoformat t1) p,
           row_of dumps (Suc (Suc (processes_seq db))) (isoformat t2) p])"
proof (intro conjI impI)
  show "last (processes (insert_process_info dumps t1 p db)) =
      row_of dumps (Suc (processes_seq db)) (isoformat t1) p"
    by (simp add: processes_insert)
  show "length (isoformat t1) = (if microsecond t1 = 0 then 19 else 26)"
    by (rule length_isoformat)
next
  assume v: "valid_datetime t1" "valid_datetime t2" "t1 \<noteq> t2"
  then show ne: "isoformat t1 \<noteq> isoformat t2"
    using isoformat_inj by blast
  have "filter (\<lambda>r. same_key (isoformat t1) (pid p) r \<or> same_key (isoformat t2) (pid p) r)
          (filter (\<lambda>r. \<not> same_key (isoformat t2) (pid p) r)
             (filter (\<lambda>r. \<not> same_key (isoformat t1) (pid p) r) (processes db))) = []"
    by (auto simp: filter_empty_conv)
  with ne show "filter (\<lambda>r. same_key (isoformat t1) (pid p) r \<or> same_key (isoformat t2) (pid p) r)
        (processes (insert_process_info dumps t2 p (insert_process_info dumps t1 p db)))
        = [row_of dumps (Suc (processes_seq db)) (isoformat t1) p,
           row_of dumps (Suc (Suc (processes_seq db))) (isoformat t2) p]"
    by (simp add: processes_insert seq_insert)
qed

text \<open>A witness: the same sample written at 03:04:05.000006 and at 03:04:10.\<close>

theorem insert_stamps_clock_witness:
  "map timestamp_col
     (processes
        (insert_process_info (\<lambda>j. [])
           \<lparr>year = 2025, month = 1, day = 2, hour = 3, minute = 4, second = 10, microsecond = 0\<rparr>
           \<lparr>pid = 7, name = ''chrome'', command_line = '''', user = ''N/A'', cpu_percent = 1,
             memory_mb = 10, extra_metrics = []\<rparr>
           (insert_process_info (\<lambda>j. [])
              \<lparr>year = 2025, month = 1, day = 2, hour = 3, minute = 4, second = 5,
                microsecond = 6\<rparr>
              \<lparr>pid = 7, name = ''chrome'', command_line = '''', user = ''N/A'', cpu_percent = 1,
                memory_mb = 10, extra_metrics = []\<rparr>
              empty_database)))
     = [''2025-01-02T03:04:05.000006'', ''2025-01-02T03:04:10'']"
proof -
  let ?t1 = "\<lparr>year = 2025, month = 1, day = 2, hour = 3, minute = 4, second = 5,
               microsecond = 6\<rparr>"
  let ?t2 = "\<lparr>year = 2025, month = 1, day = 2, hour = 3, minute = 4, second = 10,
               microsecond = 0\<rparr>"
  let ?p = "\<lparr>pid = 7, name = ''chrome'', command_line = '''', user = ''N/A'', cpu_percent = 1,
             memory_mb = 10, extra_metrics = []\<rparr>"
  let ?db = "insert_process_info (\<lambda>j. []) ?t2 ?p (insert_process_info (\<lambda>j. []) ?t1 ?p empty_database)"
  have v: "valid_datetime ?t1" "valid_datetime ?t2" "?t1 \<noteq> ?t2"
    by (simp_all add: valid_datetime_def)
  have i1: "isoformat ?t1 = ''2025-01-02T03:04:05.000006''"
    by code_simp
  have i2: "isoformat ?t2 = ''2025-01-02T03:04:10''"
    by code_simp
  from insert_stamps_clock [of "\<lambda>j. []" ?t1 ?p empty_database ?t2] v
  have f: "filter (\<lambda>r. same_key (isoformat ?t1) (pid ?p) r \<or> same_key (isoformat ?t2) (pid ?p) r)
        (processes ?db)
        = [row_of (\<lambda>j. []) (Suc (processes_seq empty_database)) (isoformat ?t1) ?p,
           row_of (\<lambda>j. []) (Suc (Suc (processes_seq empty_database))) (isoformat ?t2) ?p]"
    by blast
  have "processes ?db =
     filter (\<lambda>r. same_key (isoformat ?t1) (pid ?p) r \<or> same_key (isoformat ?t2) (pid ?p) r)
        (processes ?db)"
    by (simp add: processes_insert seq_insert empty_database_def)
  with f have "map timestamp_col (processes ?db) = [isoformat ?t1, isoformat ?t2]"
    by (simp add: row_of_def)
  then show ?thesis
    by (simp only: i1 i2)
qed

subsection \<open>Queries\<close>

lemma set_get_process_data:
  "set (get_process_data loads db pid_q name_q start_time end_time) =
     row_to_dict loads ` {r \<in> set (processes db). where_clause pid_q name_q start_time end_time r}"
  by (simp add: get_process_data_def)

lemma d_timestamp_row_to_dict: "d_timestamp \<circ> row_to_dict loads = timestamp_col"
  by (rule ext) (simp add: row_to_dict_def)

lemma sorted_get_process_data:
  "sorted (map d_timestamp (get_process_data loads db pid_q name_q start_time end_time))"
  by (simp add: get_process_data_def d_timestamp_row_to_dict)

text \<open>
  C4. Every row \<^verbatim>\<open>get_process_data\<close> returns satisfies each filter that was supplied: its
  pid is \<open>P\<close> for \<^verbatim>\<open>pid=P\<close>, its name is \<open>N\<close> for \<^verbatim>\<open>name=N\<close>, its timestamp is not
  below \<open>T\<close> for \<^verbatim>\<open>start_time=T\<close> and not above \<open>E\<close> for \<^verbatim>\<open>end_time=E\<close>. The rows
  returned are exactly the stored rows that satisfy the conjunction of the supplied filters
  (a time bound counts as supplied when it is a non-empty string, which is how the code
  tests it), and they come in ascending order of timestamp.
\<close>

theorem query_filter_sound_ordered:
  "(\<forall>d \<in> set (get_process_data loads db pid_q name_q start_time end_time).
      (\<forall>P. pid_q = Some P \<longrightarrow> d_pid d = P) \<and>
      (\<forall>N. name_q = Some N \<longrightarrow> d_name d = N) \<and>
      (\<forall>T. start_time = Some T \<longrightarrow> \<not> d_timestamp d < T) \<and>
      (\<forall>E. end_time = Some E \<longrightarrow> E \<noteq> [] \<longrightarrow> d_timestamp d \<le> E)) \<and>
   set (get_process_data loads db pid_q name_q start_time end_time) =
     row_to_dict loads `
       {r \<in> set (processes db).
          (\<forall>P. pid_q = Some P \<longrightarrow> pid_col r = P) \<and>
          (\<forall>N. name_q = Some N \<longrightarrow> name_col r = N) \<and>
          (\<forall>T. start_time = Some T \<longrightarrow> T \<noteq> [] \<longrightarrow> T \<le> timestamp_col r) \<and>
          (\<forall>E. end_time = Some E \<longrightarrow> E \<noteq> [] \<longrightarrow> timestamp_col r \<le> E)} \<and>
   sorted (map d_timestamp (get_process_data loads db pid_q name_q start_time end_time))"
proof (intro conjI ballI)
  fix d
  assume "d \<in> set (get_process_data loads db pid_q name_q start_time end_time)"
  then obtain r where r: "where_clause pid_q name_q start_time end_time r" and d: "d = row_to_dict loads r"
    unfolding set_get_process_data by blast
  show "\<forall>P. pid_q = Some P \<longrightarrow> d_pid d = P"
    using r by (auto simp: d where_clause_def row_to_dict_def)
  show "\<forall>N. name_q = Some N \<longrightarrow> d_name d = N"
    using r by (auto simp: d where_clause_def row_to_dict_def)
  show "\<forall>T. start_time = Some T \<longrightarrow> \<not> d_timestamp d < T"
    using r by (auto simp: d where_clause_def row_to_dict_def)
  show "\<forall>E. end_time = Some E \<longrightarrow> E \<noteq> [] \<longrightarrow> d_timestamp d \<le> E"
    using r by (auto simp: d where_clause_def row_to_dict_def)
next
  have "\<And>r. where_clause pid_q name_q start_time end_time r \<longleftrightarrow>
          (\<forall>P. pid_q = Some P \<longrightarrow> pid_col r = P) \<and>
          (\<forall>N. name_q = Some N \<longrightarrow> name_col r = N) \<and>
          (\<forall>T. start_time = Some T \<longrightarrow> T \<noteq> [] \<longrightarrow> T \<le> timestamp_col r) \<and>
          (\<forall>E. end_time = Some E \<longrightarrow> E \<noteq> [] \<longrightarrow> timestamp_col r \<le> E)"
    by (auto simp: where_clause_def split: option.splits)
  then show "set (get_process_data loads db pid_q name_q start_time end_time) =
     row_to_dict loads `
       {r \<in> set (processes db).
          (\<forall>P. pid_q = Some P \<longrightarrow> pid_col r = P) \<and>
          (\<forall>N. name_q = Some N \<longrightarrow> name_col r = N) \<and>
          (\<forall>T. start_time = Some T \<longrightarrow> T \<noteq> [] \<longrightarrow> T \<le> timestamp_col r) \<and>
          (\<forall>E. end_time = Some E \<longrightarrow> E \<noteq> [] \<longrightarrow> timestamp_col r \<le> E)}"
    unfolding set_get_process_data by simp
next
  show "sorted (map d_timestamp (get_process_data loads db pid_q name_q start_time end_time))"
    by (rule sorted_get_process_data)
qed


text \<open>
  A witness: three rows of two pids; the query for pid 7 from 03:04:06 on returns row 3 only.
\<close>

theorem query_filter_sound_ordered_witness:
  "map d_id (get_process_data (map_of [(''{}'', JDict [])]) example_store (Some 7) None
      (Some ''2025-01-02T03:04:06'') None) = [3] \<and>
   d_pid (hd (get_process_data (map_of [(''{}'', JDict [])]) example_store (Some 7) None
      (Some ''2025-01-02T03:04:06'') None)) = 7 \<and>
   \<not> d_timestamp (hd (get_process_data (map_of [(''{}'', JDict [])]) example_store (Some 7) None
      (Some ''2025-01-02T03:04:06'') None)) < ''2025-01-02T03:04:06'' \<and>
   sorted (map d_timestamp (get_process_data (map_of [(''{}'', JDict [])]) example_store None None
      None None))"
proof -
  have gen: "\<And>res (p::int) T A B.
      (\<forall>d\<in>set res. (\<forall>P. Some p = Some P \<longrightarrow> d_pid d = P) \<and> A d \<and>
          (\<forall>T'. Some T = Some T' \<longrightarrow> \<not> d_timestamp d < T') \<and> B d) \<Longrightarrow>
      res \<noteq> [] \<Longrightarrow> d_pid (hd res) = p \<and> \<not> d_timestamp (hd res) < T"
    by simp
  have a: "map d_id (get_process_data (map_of [(''{}'', JDict [])]) example_store (Some 7) None
      (Some ''2025-01-02T03:04:06'') None) = [3]"
    by code_simp
  then have ne: "get_process_data (map_of [(''{}'', JDict [])]) example_store (Some 7) None
      (Some ''2025-01-02T03:04:06'') None \<noteq> []"
    by auto
  have b: "d_pid (hd (get_process_data (map_of [(''{}'', JDict [])]) example_store (Some 7) None
      (Some ''2025-01-02T03:04:06'') None)) = 7 \<and>
   \<not> d_timestamp (hd (get_process_data (map_of [(''{}'', JDict [])]) example_store (Some 7) None
      (Some ''2025-01-02T03:04:06'') None)) < ''2025-01-02T03:04:06''"
    by (rule gen [OF conjunct1 [OF query_filter_sound_ordered] ne])
  have c: "sorted (map d_timestamp (get_process_data (map_of [(''{}'', JDict [])]) example_store
      None None None None))"
    by (rule conjunct2 [OF conjunct2 [OF query_filter_sound_ordered]])
  from a b c show ?thesis by (intro conjI) (erule conjunct1 conjunct2 | assumption)+
qed

text \<open>
  C8. The store compares names with \<^verbatim>\<open>name = ?\<close>, byte for byte.
  \<^verbatim>\<open>get_process_data(name=N)\<close> returns exactly the stored rows whose name is \<open>N\<close>, and
  \<^verbatim>\<open>get_all_pids(N)\<close>, for a non-empty \<open>N\<close>, the sorted distinct pids of those rows.
\<close>

theorem name_match_exact:
  "set (get_process_data loads db None (Some N) None None) =
      row_to_dict loads ` {r \<in> set (processes db). name_col r = N} \<and>
   (N \<noteq> [] \<longrightarrow>
      get_all_pids db (Some N) =
        sorted_list_of_set (pid_col ` {r \<in> set (processes db). name_col r = N}))"
proof (intro conjI impI)
  show "set (get_process_data loads db None (Some N) None None) =
      row_to_dict loads ` {r \<in> set (processes db). name_col r = N}"
    by (simp add: get_process_data_def where_clause_def)
next
  assume "N \<noteq> []"
  moreover have "pid_col ` {r \<in> set (processes db). name_col r = N} =
      set (map pid_col (filter (\<lambda>r. name_col r = N) (processes db)))"
    by auto
  ultimately show "get_all_pids db (Some N) =
        sorted_list_of_set (pid_col ` {r \<in> set (processes db). name_col r = N})"
    by (simp only: get_all_pids_def sorted_list_of_set_sort_remdups option.case if_False)
qed

text \<open>A witness: the rows and the pids recorded under the stored name "Chrome".\<close>

theorem name_match_exact_witness:
  "''Chrome'' \<noteq> [] \<and> get_all_pids example_store (Some ''Chrome'') = [7] \<and>
   map d_id (get_process_data (map_of [(''{}'', JDict [])]) example_store None (Some ''Chrome'') None None) = [1, 3]"
proof -
  have ne: "''Chrome'' \<noteq> []" by simp
  have s: "sorted_list_of_set (pid_col ` {r \<in> set (processes example_store). name_col r = ''Chrome''}) = [7]"
    by code_simp
  have "get_all_pids example_store (Some ''Chrome'') =
        sorted_list_of_set (pid_col ` {r \<in> set (processes example_store). name_col r = ''Chrome''})"
    using name_match_exact [of "map_of [(''{}'', JDict [])]" example_store "''Chrome''"] ne by blast
  with s have a: "get_all_pids example_store (Some ''Chrome'') = [7]" by simp
  have b: "map d_id (get_process_data (map_of [(''{}'', JDict [])]) example_store None (Some ''Chrome'') None None) = [1, 3]"
    by code_simp
  from ne a b show ?thesis by blast
qed

text \<open>
  The same store asked for "chrome": the names are equal up to case, yet no row and no pid
  is returned.
\<close>

theorem name_match_case_insensitive_counterexample:
  "lower ''Chrome'' = lower ''chrome'' \<and>
   map name_col (processes example_store) = [''Chrome'', ''idea'', ''Chrome''] \<and>
   get_process_data (map_of [(''{}'', JDict [])]) example_store None (Some ''chrome'') None None = [] \<and>
   get_all_pids example_store (Some ''chrome'') = []"
  by code_simp

subsection \<open>The round trip of the extra metrics\<close>

lemma set_get_all_process_data:
  "set (get_process_data loads db None None None None) = row_to_dict loads ` set (processes db)"
  by (simp add: get_process_data_def where_clause_def)

lemma written_cell:
  assumes "extra_metrics p \<noteq> [] \<longrightarrow>
      dumps (JDict (extra_metrics p)) \<noteq> [] \<and>
      loads (dumps (JDict (extra_metrics p))) = Some (JDict (extra_metrics p))"
    and "loads ''{}'' = Some (JDict [])"
  shows "d_extra_metrics (row_to_dict loads (row_of dumps i ts p)) = PyJson (JDict (extra_metrics p))"
    and "\<exists>s. extra_metrics_col (row_of dumps i ts p) = Some s \<and> s \<noteq> []"
  using assms by (auto simp: row_to_dict_def row_of_def parse_extra_metrics_def)

lemma read_back_written_key:
  "{d \<in> set (get_process_data loads (insert_process_info dumps now p db) None None None None).
      d_timestamp d = isoformat now \<and> d_pid d = pid p} =
   {row_to_dict loads (row_of dumps (Suc (processes_seq db)) (isoformat now) p)}"
proof -
  show ?thesis
    unfolding set_get_all_process_data processes_insert
    by (auto simp: row_to_dict_def same_key_def row_of_def)
qed

text \<open>
  C6. A sample stored by \<^verbatim>\<open>insert_process_info\<close> and read back by \<^verbatim>\<open>get_process_data\<close>
  comes back with the mapping it was stored with: for a non-empty mapping that the JSON
  library writes as a non-empty text and reads back as the same mapping, and for the empty
  mapping, which is stored as \<^verbatim>\<open>{}\<close>. The cell a write leaves is never NULL and never
  empty, and a store whose cells are all non-empty texts stays such a store, so after
  storing no empty or NULL column is ever read.
\<close>

theorem extra_metrics_round_trip:
  "(extra_metrics p \<noteq> [] \<longrightarrow>
      dumps (JDict (extra_metrics p)) \<noteq> [] \<and>
      loads (dumps (JDict (extra_metrics p))) = Some (JDict (extra_metrics p))) \<longrightarrow>
   loads ''{}'' = Some (JDict []) \<longrightarrow>
   d_extra_metrics `
     {d \<in> set (get_process_data loads (insert_process_info dumps now p db) None None None None).
        d_timestamp d = isoformat now \<and> d_pid d = pid p} =
     {PyJson (JDict (extra_metrics p))} \<and>
   ((\<forall>r\<in>set (processes db). \<exists>s. extra_metrics_col r = Some s \<and> s \<noteq> []) \<longrightarrow>
    (\<forall>r\<in>set (processes (insert_process_info dumps now p db)).
        \<exists>s. extra_metrics_col r = Some s \<and> s \<noteq> []))"
proof (intro impI conjI)
  assume h: "extra_metrics p \<noteq> [] \<longrightarrow>
      dumps (JDict (extra_metrics p)) \<noteq> [] \<and>
      loads (dumps (JDict (extra_metrics p))) = Some (JDict (extra_metrics p))"
    "loads ''{}'' = Some (JDict [])"
  show "d_extra_metrics `
     {d \<in> set (get_process_data loads (insert_process_info dumps now p db) None None None None).
        d_timestamp d = isoformat now \<and> d_pid d = pid p} =
     {PyJson (JDict (extra_metrics p))}"
    unfolding read_back_written_key using written_cell(1) [of p dumps loads, OF h] by simp
  assume old: "\<forall>r\<in>set (processes db). \<exists>s. extra_metrics_col r = Some s \<and> s \<noteq> []"
  show "\<forall>r\<in>set (processes (insert_process_info dumps now p db)).
        \<exists>s. extra_metrics_col r = Some s \<and> s \<noteq> []"
    unfolding processes_insert using old written_cell(2) [of p dumps loads, OF h] by auto
qed

text \<open>
  A witness: a sample with a thread count and a sample with no extra metrics, each
  written to the empty store and read back.
\<close>

theorem extra_metrics_round_trip_witness:
  "map d_extra_metrics
     (get_process_data example_loads
        (insert_process_info example_dumps example_now threads_sample empty_database)
        None None None None) = [PyJson (JDict threads_metrics)] \<and>
   map extra_metrics_col
     (processes (insert_process_info example_dumps example_now threads_sample empty_database)) =
     [Some ''{\"num_threads\": 4}''] \<and>
   map d_extra_metrics
     (get_process_data example_loads
        (insert_process_info example_dumps example_now (fast_info 8 ''idea'') empty_database)
        None None None None) = [PyJson (JDict [])] \<and>
   d_extra_metrics `
     {d \<in> set (get_process_data example_loads
           (insert_process_info example_dumps example_now threads_sample empty_database)
           None None None None).
        d_timestamp d = isoformat example_now \<and> d_pid d = pid threads_sample} =
     {PyJson (JDict (extra_metrics threads_sample))}"
proof -
  have h1: "extra_metrics threads_sample \<noteq> [] \<longrightarrow>
      example_dumps (JDict (extra_metrics threads_sample)) \<noteq> [] \<and>
      example_loads (example_dumps (JDict (extra_metrics threads_sample))) =
        Some (JDict (extra_metrics threads_sample))"
    by code_simp
  have h2: "example_loads ''{}'' = Some (JDict [])"
    by code_simp
  have a: "map d_extra_metrics
     (get_process_data example_loads
        (insert_process_info example_dumps example_now threads_sample empty_database)
        None None None None) = [PyJson (JDict threads_metrics)]"
    by code_simp
  have b: "map extra_metrics_col
     (processes (insert_process_info example_dumps example_now threads_sample empty_database)) =
     [Some ''{\"num_threads\": 4}'']"
    by code_simp
  have c: "map d_extra_metrics
     (get_process_data example_loads
        (insert_process_info example_dumps example_now (fast_info 8 ''idea'') empty_database)
        None None None None) = [PyJson (JDict [])]"
    by code_simp
  have d: "d_extra_metrics `
     {d \<in> set (get_process_data example_loads
           (insert_process_info example_dumps example_now threads_sample empty_database)
           None None None None).
        d_timestamp d = isoformat example_now \<and> d_pid d = pid threads_sample} =
     {PyJson (JDict (extra_metrics threads_sample))}"
    using extra_metrics_round_trip [of threads_sample example_dumps example_loads example_now
        empty_database] h1 h2
    by blast
  from a b c d show ?thesis
    by (intro conjI)
qed

subsection \<open>The watch-list\<close>

lemma unique_loop_index:
  "unique_loop xs seen uniq =
     uniq @ map ((!) xs)
       (filter (\<lambda>i. lower (xs ! i) \<notin> seen \<and> (\<forall>j<i. lower (xs ! j) \<noteq> lower (xs ! i)))
          [0..<length xs])"
proof (induction xs arbitrary: seen uniq)
  case Nil
  then show ?case by simp
next
  case (Cons x xs)
  have upt: "[0..<Suc (length xs)] = 0 # map Suc [0..<length xs]"
    by (simp add: upt_conv_Cons map_Suc_upt del: upt_Suc)
  have all_Suc: "\<And>i P. (\<forall>j<Suc i. P j) \<longleftrightarrow> P 0 \<and> (\<forall>j<i. P (Suc j))"
    by (metis less_Suc_eq_0_disj)
  show ?case
  proof (cases "lower x \<in> seen")
    case True
    have "filter (\<lambda>i. lower (xs ! i) \<notin> seen \<and> lower x \<noteq> lower (xs ! i) \<and>
            (\<forall>j<i. lower (xs ! j) \<noteq> lower (xs ! i))) [0..<length xs] =
          filter (\<lambda>i. lower (xs ! i) \<notin> seen \<and> (\<forall>j<i. lower (xs ! j) \<noteq> lower (xs ! i)))
            [0..<length xs]"
      using True by (intro filter_cong) auto
    with True show ?thesis
      by (simp add: Cons.IH upt filter_map comp_def all_Suc del: upt_Suc)
  next
    case False
    have "filter (\<lambda>i. lower (xs ! i) \<noteq> lower x \<and> lower (xs ! i) \<notin> seen \<and>
            (\<forall>j<i. lower (xs ! j) \<noteq> lower (xs ! i))) [0..<length xs] =
          filter (\<lambda>i. lower (xs ! i) \<notin> seen \<and> lower x \<noteq> lower (xs ! i) \<and>
            (\<forall>j<i. lower (xs ! j) \<noteq> lower (xs ! i))) [0..<length xs]"
      by (intro filter_cong) auto
    with False show ?thesis
      by (simp add: Cons.IH upt filter_map comp_def all_Suc del: upt_Suc)
  qed
qed

lemma load_config_first_seen:
  "load_config cfg t =
     map ((!) cfg) (filter (\<lambda>i. \<forall>j<i. lower (cfg ! j) \<noteq> lower (cfg ! i)) [0..<length cfg])"
  by (simp add: load_config_def unique_loop_index)

lemma unique_loop_distinct:
  "distinct (map lower uniq) \<Longrightarrow> lower ` set uniq \<subseteq> seen \<Longrightarrow>
   distinct (map lower (unique_loop xs seen uniq))"
proof (induction xs arbitrary: seen uniq)
  case Nil
  then show ?case by simp
next
  case (Cons x xs)
  show ?case
  proof (cases "lower x \<in> seen")
    case True
    then show ?thesis using Cons by simp
  next
    case False
    have "distinct (map lower (uniq @ [x]))"
      using Cons.prems False by auto
    moreover have "lower ` set (uniq @ [x]) \<subseteq> insert (lower x) seen"
      using Cons.prems by auto
    ultimately show ?thesis
      using False Cons.IH by simp
  qed
qed

lemma distinct_load_config: "distinct (map lower (load_config cfg t))"
  by (simp add: load_config_def unique_loop_distinct)

lemma distinct_add_process:
  "distinct (map lower t) \<Longrightarrow> distinct (map lower (add_process text t))"
  by (auto simp: add_process_def Let_def list_ex_iff)

lemma distinct_add_process_to_monitor:
  "distinct (map lower t) \<Longrightarrow> distinct (map lower (snd (add_process_to_monitor running row t)))"
  by (auto simp: add_process_to_monitor_def Let_def list_ex_iff)

lemma distinct_apply_action:
  "distinct (map lower t) \<Longrightarrow> distinct (map lower (apply_action a t))"
  by (cases a) (simp_all add: distinct_load_config distinct_add_process distinct_add_process_to_monitor)

lemma distinct_run_actions:
  "distinct (map lower t) \<Longrightarrow> distinct (map lower (run_actions acts t))"
  unfolding run_actions_def
  by (induction acts arbitrary: t) (simp_all add: distinct_apply_action)

lemma add_process_twice:
  assumes "lower (strip b) = lower (strip a)"
  shows "add_process b (add_process a t) = add_process a t"
proof (cases "strip a = []")
  case True
  then have "strip b = []" using assms by (simp add: lower_def)
  with True show ?thesis by (simp add: add_process_def)
next
  case False
  then have "strip b \<noteq> []" using assms by (auto simp: lower_def)
  with False assms show ?thesis
    by (auto simp: add_process_def Let_def list_ex_iff)
qed

lemma add_process_new:
  assumes "strip a \<noteq> []" "lower (strip a) \<notin> lower ` set t"
  shows "add_process a t = t @ [strip a]"
proof -
  from assms(2) have "\<forall>x\<in>set t. lower x \<noteq> lower (strip a)"
    by (metis imageI)
  with assms(1) show ?thesis
    by (simp add: add_process_def Let_def list_ex_iff)
qed

text \<open>
  C5. Starting from the empty table, after any sequence of loads and additions no two rows
  of the watch-list are equal up to case. Adding a name and then a name equal to it up to
  case (when the name is not yet present) leaves the one entry of the first addition, in
  its casing. A load keeps, in their original order, exactly the entries of the configured
  list that no earlier entry equals up to case.
\<close>

theorem watch_list_unique:
  "distinct (map lower (run_actions acts [])) \<and>
   (\<forall>a b t. lower (strip b) = lower (strip a) \<longrightarrow> strip a \<noteq> [] \<longrightarrow>
        lower (strip a) \<notin> lower ` set t \<longrightarrow>
        add_process b (add_process a t) = t @ [strip a]) \<and>
   (\<forall>cfg t. load_config cfg t =
        map ((!) cfg) (filter (\<lambda>i. \<forall>j<i. lower (cfg ! j) \<noteq> lower (cfg ! i)) [0..<length cfg]))"
proof (intro conjI allI impI)
  show "distinct (map lower (run_actions acts []))"
    by (rule distinct_run_actions) simp
next
  fix a b t
  assume "lower (strip b) = lower (strip a)" "strip a \<noteq> []" "lower (strip a) \<notin> lower ` set t"
  then show "add_process b (add_process a t) = t @ [strip a]"
    using add_process_twice [of b a t] add_process_new [of a t] by metis
next
  fix cfg t
  show "load_config cfg t =
        map ((!) cfg) (filter (\<lambda>i. \<forall>j<i. lower (cfg ! j) \<noteq> lower (cfg ! i)) [0..<length cfg])"
    by (rule load_config_first_seen)
qed


text \<open>A witness: "chrome" then "Chrome"; and a configured list with repeats.\<close>

theorem watch_list_unique_witness:
  "add_process ''Chrome'' (add_process ''chrome'' []) = [''chrome''] \<and>
   load_config [''chrome'', ''Idea'', ''Chrome'', ''IDEA''] [] = [''chrome'', ''Idea''] \<and>
   distinct (map lower (run_actions
      [LoadConfig [''chrome'', ''Idea'', ''Chrome''], AddProcess ''IDEA'', AddProcess ''vim''] []))"
proof -
  have s: "strip ''chrome'' = ''chrome''" "strip ''Chrome'' = ''Chrome''"
    by code_simp+
  have l: "lower ''Chrome'' = lower ''chrome''" "''chrome'' \<noteq> []"
    "lower ''chrome'' \<notin> lower ` set ([] :: string list)"
    by code_simp+
  from watch_list_unique [of "[LoadConfig [''chrome'', ''Idea'', ''Chrome''], AddProcess ''IDEA'',
      AddProcess ''vim'']"]
  have a: "distinct (map lower (run_actions
      [LoadConfig [''chrome'', ''Idea'', ''Chrome''], AddProcess ''IDEA'', AddProcess ''vim''] []))"
    and b: "\<And>a b t. lower (strip b) = lower (strip a) \<Longrightarrow> strip a \<noteq> [] \<Longrightarrow>
        lower (strip a) \<notin> lower ` set t \<Longrightarrow> add_process b (add_process a t) = t @ [strip a]"
    and c0: "\<And>cfg t. load_config cfg t =
        map ((!) cfg) (filter (\<lambda>i. \<forall>j<i. lower (cfg ! j) \<noteq> lower (cfg ! i)) [0..<length cfg])"
    by blast+
  have "add_process ''Chrome'' (add_process ''chrome'' []) = [] @ [strip ''chrome'']"
    by (rule b) (simp_all only: s l not_False_eq_True)
  then have c: "add_process ''Chrome'' (add_process ''chrome'' []) = [''chrome'']"
    by (simp only: s append_Nil)
  have d: "load_config [''chrome'', ''Idea'', ''Chrome'', ''IDEA''] [] = [''chrome'', ''Idea'']"
    by code_simp
  from c d a show ?thesis by blast
qed

section \<open>Properties of the configuration file\<close>

text \<open>
  C2. A save of a new document over an existing configuration runs five steps. After the
  first three the target still holds the old document; after the fourth (the unlink that
  precedes the move) the configuration path holds nothing at all; only the fifth puts the
  new document there. A process that dies between the unlink and the move leaves no
  configuration file, so the replacement is not one step.
\<close>

theorem save_config_window_without_file:
  "save_config_steps ''config.json'' [''{\"record_interval\": '', ''1}''] old_files =
     [OpenTruncate ''config.json.tmp'',
      WriteChunk ''config.json.tmp'' ''{\"record_interval\": '',
      WriteChunk ''config.json.tmp'' ''1}'',
      Unlink ''config.json'',
      Move ''config.json.tmp'' ''config.json''] \<and>
   save_config_upto 3 ''config.json'' [''{\"record_interval\": '', ''1}''] old_files ''config.json''
     = Some ''{\"record_interval\": 5}'' \<and>
   save_config_upto 4 ''config.json'' [''{\"record_interval\": '', ''1}''] old_files ''config.json''
     = None \<and>
   save_config_upto 5 ''config.json'' [''{\"record_interval\": '', ''1}''] old_files ''config.json''
     = Some ''{\"record_interval\": 1}''"
  by code_simp

section \<open>Properties of the sampling loop\<close>

lemma trace_tick: "trace (snd (tick env names st)) = trace st"
  by (simp add: tick_def split: sum.splits prod.splits option.splits)

lemma trace_iteration:
  "\<exists>pre. trace (iteration interval names env st) = trace st @ pre @ [Slept interval] \<and>
         filter is_sleep pre = []"
proof (cases "tick env names st")
  case (Pair r st')
  then have "trace st' = trace st"
    using trace_tick [of env names st] by simp
  with Pair show ?thesis
    by (cases r) (simp_all add: iteration_def)
qed

lemma sleeps_iteration:
  "filter is_sleep (trace (iteration interval names env st)) =
     filter is_sleep (trace st) @ [Slept interval]"
  using trace_iteration [of interval names env st] by auto

lemma sleeps_monitor_loop:
  "filter is_sleep (trace (monitor_loop interval names envs st)) =
     filter is_sleep (trace st) @ replicate (length envs) (Slept interval)"
proof (induction envs arbitrary: st)
  case Nil
  then show ?case by simp
next
  case (Cons env envs)
  show ?case
    by (simp add: Cons.IH sleeps_iteration replicate_app_Cons_same)
qed

text \<open>
  C7. When the body of an iteration is left by an exception (raised by the collector, by
  the write of a process sample or by the write of the system sample), the loop prints it,
  sleeps the interval and goes on with the remaining iterations from the state the failed
  iteration reached. Whatever fails, the loop runs every iteration at whose start the
  monitoring flag is set, and each of them ends with one sleep of the interval.
\<close>

theorem tick_failure_contained:
  "(tick env names st = (Some e, st') \<longrightarrow>
      monitor_loop interval names (env # envs) st =
        monitor_loop interval names envs (st'\<lparr>trace := trace st @ [Printed e, Slept interval]\<rparr>)) \<and>
   filter is_sleep (trace (monitor_loop interval names envs st)) =
     filter is_sleep (trace st) @ replicate (length envs) (Slept interval)"
proof (intro conjI impI)
  assume t: "tick env names st = (Some e, st')"
  then have "trace st' = trace st"
    using trace_tick [of env names st] by simp
  with t show "monitor_loop interval names (env # envs) st =
        monitor_loop interval names envs (st'\<lparr>trace := trace st @ [Printed e, Slept interval]\<rparr>)"
    by (simp add: iteration_def)
next
  show "filter is_sleep (trace (monitor_loop interval names envs st)) =
     filter is_sleep (trace st) @ replicate (length envs) (Slept interval)"
    by (rule sleeps_monitor_loop)
qed

text \<open>
  A witness: the store refuses the write in the first iteration and accepts the writes of
  the second. The exception is printed, both iterations sleep, and the second iteration
  writes its process sample and its system sample.
\<close>

theorem tick_failure_contained_witness:
  "tick failing_env [''chrome''] idle_state = (Some (Exception ''database is locked''), idle_state) \<and>
   trace (monitor_loop 5 [''chrome''] [failing_env, good_env] idle_state) =
     [Printed (Exception ''database is locked''), Slept 5, Slept 5] \<and>
   store (monitor_loop 5 [''chrome''] [failing_env, good_env] idle_state) = 2"
proof -
  have t: "tick failing_env [''chrome''] idle_state =
      (Some (Exception ''database is locked''), idle_state)"
    by code_simp
  have tr: "trace idle_state = []"
    by (simp add: idle_state_def)
  have "monitor_loop 5 [''chrome''] [failing_env, good_env] idle_state =
      monitor_loop 5 [''chrome''] [good_env]
        (idle_state\<lparr>trace := trace idle_state @ [Printed (Exception ''database is locked''), Slept 5]\<rparr>)"
    using tick_failure_contained [of failing_env "[''chrome'']" idle_state
        "Exception ''database is locked''" idle_state 5 "[good_env]"] t
    by blast
  moreover have "trace (monitor_loop 5 [''chrome''] [good_env]
        (idle_state\<lparr>trace := trace idle_state @ [Printed (Exception ''database is locked''), Slept 5]\<rparr>)) =
     [Printed (Exception ''database is locked''), Slept 5, Slept 5]"
    by code_simp
  moreover have "store (monitor_loop 5 [''chrome''] [good_env]
        (idle_state\<lparr>trace := trace idle_state @ [Printed (Exception ''database is locked''), Slept 5]\<rparr>)) = 2"
    by code_simp
  ultimately show ?thesis
    using t by simp
qed

section \<open>Properties of the refresher\<close>

lemma names_seen_loop_keys:
  "fst ` set (names_seen_loop procs seen) = fst ` set seen \<union> lower ` name ` set procs"
proof (induction procs arbitrary: seen)
  case Nil
  then show ?case by simp
next
  case (Cons p procs)
  show ?case
  proof (cases "map_of seen (lower (name p)) = None")
    case True
    with Cons.IH [of "seen @ [(lower (name p), name p)]"] show ?thesis
      by (auto simp: Let_def)
  next
    case False
    then have "lower (name p) \<in> fst ` set seen"
      by (simp add: map_of_eq_None_iff)
    with Cons.IH [of seen] False show ?thesis
      by (auto simp: Let_def)
  qed
qed

lemma names_seen_loop_distinct:
  "distinct (map fst seen) \<Longrightarrow> distinct (map fst (names_seen_loop procs seen))"
proof (induction procs arbitrary: seen)
  case Nil
  then show ?case by simp
next
  case (Cons p procs)
  show ?case
  proof (cases "map_of seen (lower (name p)) = None")
    case True
    then have "lower (name p) \<notin> fst ` set seen"
      by (simp add: map_of_eq_None_iff)
    with Cons.prems have "distinct (map fst (seen @ [(lower (name p), name p)]))"
      by simp
    from Cons.IH [OF this] True show ?thesis
      by (simp add: Let_def)
  next
    case False
    then obtain y where "map_of seen (lower (name p)) = Some y"
      by auto
    with Cons.IH [OF Cons.prems] show ?thesis
      by (simp add: Let_def)
  qed
qed

lemma names_seen_loop_lowered:
  "map (\<lambda>kv. lower (snd kv)) seen = map fst seen \<Longrightarrow>
   map (\<lambda>kv. lower (snd kv)) (names_seen_loop procs seen) = map fst (names_seen_loop procs seen)"
proof (induction procs arbitrary: seen)
  case Nil
  then show ?case by simp
next
  case (Cons p procs)
  show ?case
  proof (cases "map_of seen (lower (name p)) = None")
    case True
    from Cons.prems
    have "map (\<lambda>kv. lower (snd kv)) (seen @ [(lower (name p), name p)]) =
          map fst (seen @ [(lower (name p), name p)])"
      by simp
    from Cons.IH [OF this] True show ?thesis
      by (simp add: Let_def)
  next
    case False
    then obtain y where "map_of seen (lower (name p)) = Some y"
      by auto
    with Cons.IH [OF Cons.prems] show ?thesis
      by (simp add: Let_def)
  qed
qed

lemma lower_unique_names:
  "set (map lower (unique_names procs)) = lower ` name ` set procs"
  "distinct (map lower (unique_names procs))"
proof -
  let ?r = "names_seen_loop procs []"
  have m: "map lower (map snd ?r) = map fst ?r"
    using names_seen_loop_lowered [of "[]" procs] by (simp add: comp_def)
  have "set (map lower (unique_names procs)) = set (map lower (map snd ?r))"
    by (simp add: unique_names_def image_image)
  also have "\<dots> = set (map fst ?r)"
    by (simp only: m)
  also have "\<dots> = fst ` set ?r"
    by simp
  finally show "set (map lower (unique_names procs)) = lower ` name ` set procs"
    by (simp add: names_seen_loop_keys)
  have "distinct (map lower (map snd ?r))"
    using names_seen_loop_distinct [of "[]" procs] by (simp only: m) simp
  then have "distinct (map snd ?r)" "inj_on lower (set (map snd ?r))"
    by (simp_all only: distinct_map)
  then show "distinct (map lower (unique_names procs))"
    by (simp add: unique_names_def distinct_map)
qed

lemma nth_filter_upt: "map ((!) xs) (filter (\<lambda>i. Q (xs ! i)) [0..<length xs]) = filter Q xs"
proof -
  have "filter Q (map ((!) xs) [0..<length xs]) =
        map ((!) xs) (filter (\<lambda>i. Q (xs ! i)) [0..<length xs])"
    by (simp add: filter_map comp_def)
  then show ?thesis by (simp add: map_nth)
qed

lemma remove_fold:
  "fold remove_step (rev (filter (\<lambda>row. Q (xs ! row)) [0..<length xs])) (xs @ ys, ev) =
     (filter (\<lambda>x. \<not> Q x) xs @ ys,
      ev @ map (\<lambda>row. RemoveRow row (xs ! row))
             (rev (filter (\<lambda>row. Q (xs ! row)) [0..<length xs])))"
proof (induction xs arbitrary: ys ev rule: rev_induct)
  case Nil
  then show ?case by simp
next
  case (snoc x xs)
  have f: "filter (\<lambda>row. Q ((xs @ [x]) ! row)) [0..<length xs] =
           filter (\<lambda>row. Q (xs ! row)) [0..<length xs]"
    by (rule filter_cong) (simp_all add: nth_append)
  have m: "map (\<lambda>row. RemoveRow row ((xs @ [x]) ! row)) (rev (filter (\<lambda>row. Q (xs ! row)) [0..<length xs])) =
           map (\<lambda>row. RemoveRow row (xs ! row)) (rev (filter (\<lambda>row. Q (xs ! row)) [0..<length xs]))"
    by (rule map_cong) (simp_all add: nth_append)
  show ?case
  proof (cases "Q x")
    case True
    have "remove_step (length xs) ((xs @ [x]) @ ys, ev) = (xs @ ys, ev @ [RemoveRow (length xs) x])"
      by (simp add: remove_step_def remove_row_def)
    with True show ?thesis
      using snoc.IH [of ys "ev @ [RemoveRow (length xs) x]"]
      by (simp add: f m)
  next
    case False
    then show ?thesis
      using snoc.IH [of "x # ys" ev]
      by (simp add: f m)
  qed
qed

lemma set_insert_row: "set (insert_row i n t) = insert n (set t)"
proof -
  have "set (take i t) \<union> set (drop i t) = set t"
    by (metis append_take_drop_id set_append)
  then show ?thesis
    by (auto simp: insert_row_def)
qed

lemma filter_insert_row: "\<not> R n \<Longrightarrow> filter R (insert_row i n t) = filter R t"
proof -
  assume "\<not> R n"
  then have "filter R (insert_row i n t) = filter R (take i t) @ filter R (drop i t)"
    by (simp add: insert_row_def)
  then show ?thesis
    by (metis append_take_drop_id filter_append)
qed

lemma add_fold_events:
  "\<exists>ins. snd (fold (add_step A) names (t, ev)) = ev @ ins \<and>
         (\<forall>e\<in>set ins. \<not> is_removal e) \<and>
         map event_name ins = filter (\<lambda>n. lower n \<in> A) names"
proof (induction names arbitrary: t ev)
  case Nil
  then show ?case by simp
next
  case (Cons n names)
  show ?case
  proof (cases "lower n \<in> A")
    case True
    let ?i = "insert_position n t"
    from Cons.IH [of "insert_row ?i n t" "ev @ [InsertRow ?i n]"]
    obtain ins where ins: "snd (fold (add_step A) names (insert_row ?i n t, ev @ [InsertRow ?i n])) =
        (ev @ [InsertRow ?i n]) @ ins" "\<forall>e\<in>set ins. \<not> is_removal e"
        "map event_name ins = filter (\<lambda>n. lower n \<in> A) names"
      by blast
    have "snd (fold (add_step A) (n # names) (t, ev)) = ev @ (InsertRow ?i n # ins)"
      using True ins(1) by (simp add: add_step_def Let_def)
    moreover have "\<forall>e\<in>set (InsertRow ?i n # ins). \<not> is_removal e"
      using ins(2) by simp
    moreover have "map event_name (InsertRow ?i n # ins) = filter (\<lambda>n. lower n \<in> A) (n # names)"
      using True ins(3) by simp
    ultimately show ?thesis by blast
  next
    case False
    with Cons.IH [of t ev] show ?thesis
      by (simp add: add_step_def)
  qed
qed

lemma add_fold_table:
  "set (fst (fold (add_step A) names (t, ev))) = set t \<union> {n \<in> set names. lower n \<in> A} \<and>
   ((\<forall>n\<in>set names. lower n \<in> A \<longrightarrow> \<not> R n) \<longrightarrow>
      filter R (fst (fold (add_step A) names (t, ev))) = filter R t)"
proof (induction names arbitrary: t ev)
  case Nil
  then show ?case by simp
next
  case (Cons n names)
  show ?case
  proof (cases "lower n \<in> A")
    case True
    let ?i = "insert_position n t"
    have s: "fold (add_step A) (n # names) (t, ev) =
        fold (add_step A) names (insert_row ?i n t, ev @ [InsertRow ?i n])"
      using True by (simp add: add_step_def Let_def)
    from Cons.IH [of "insert_row ?i n t" "ev @ [InsertRow ?i n]"] True show ?thesis
      unfolding s by (auto simp: set_insert_row filter_insert_row)
  next
    case False
    have s: "fold (add_step A) (n # names) (t, ev) = fold (add_step A) names (t, ev)"
      using False by (simp add: add_step_def)
    from Cons.IH [of t ev] False show ?thesis
      unfolding s by auto
  qed
qed

lemma refresh_unfold:
  "refresh_running_processes False (Some (Inr procs)) table =
     fold (add_step (lower ` name ` set procs - lower ` set table)) (unique_names procs)
       (filter (\<lambda>x. lower x \<in> lower ` name ` set procs) table,
        map (\<lambda>row. RemoveRow row (table ! row))
          (rev (filter (\<lambda>row. lower (table ! row) \<notin> lower ` name ` set procs)
             [0..<length table])))"
proof -
  let ?N = "lower ` name ` set procs"
  let ?P = "lower ` set table"
  let ?Q = "\<lambda>x. lower x \<in> ?P - ?N"
  have rows: "filter (\<lambda>row. ?Q (table ! row)) [0..<length table] =
      filter (\<lambda>row. lower (table ! row) \<notin> ?N) [0..<length table]"
    by (rule filter_cong) auto
  have kept: "filter (\<lambda>x. \<not> ?Q x) table = filter (\<lambda>x. lower x \<in> ?N) table"
    by (rule filter_cong) auto
  have "fold remove_step (rev (filter (\<lambda>row. ?Q (table ! row)) [0..<length table])) (table, []) =
      (filter (\<lambda>x. lower x \<in> ?N) table,
       map (\<lambda>row. RemoveRow row (table ! row))
         (rev (filter (\<lambda>row. lower (table ! row) \<notin> ?N) [0..<length table])))"
    using remove_fold [of ?Q table "[]" "[]"] by (simp only: rows kept append_Nil append_Nil2)
  moreover have "set (map lower (unique_names procs)) = ?N"
    by (rule lower_unique_names)
  ultimately show ?thesis
    by (simp add: refresh_running_processes_def Let_def)
qed

text \<open>
  C9. One refresher tick outside a monitoring session, on a table whose rows are distinct
  up to case: the rows it removes are, up to case, exactly the shown names that are no
  longer live; the rows it inserts are exactly the live names not yet shown; no name is
  removed or inserted twice; the rows whose names are still live stay as they are, in
  their order and casing; and afterwards the table shows exactly the live names.
\<close>

theorem refresh_is_incremental:
  "distinct (map lower table) \<Longrightarrow>
   lower ` event_name `
      {e \<in> set (snd (refresh_running_processes False (Some (Inr procs)) table)). is_removal e} =
      lower ` set table - lower ` name ` set procs \<and>
   lower ` event_name `
      {e \<in> set (snd (refresh_running_processes False (Some (Inr procs)) table)). \<not> is_removal e} =
      lower ` name ` set procs - lower ` set table \<and>
   distinct (map (\<lambda>e. lower (event_name e))
      (snd (refresh_running_processes False (Some (Inr procs)) table))) \<and>
   filter (\<lambda>x. lower x \<in> lower ` set table)
      (fst (refresh_running_processes False (Some (Inr procs)) table)) =
      filter (\<lambda>x. lower x \<in> lower ` name ` set procs) table \<and>
   lower ` set (fst (refresh_running_processes False (Some (Inr procs)) table)) =
      lower ` name ` set procs"
proof -
  assume dt: "distinct (map lower table)"
  define N where "N = lower ` name ` set procs"
  define P where "P = lower ` set table"
  define U where "U = unique_names procs"
  define t1 where "t1 = filter (\<lambda>x. lower x \<in> N) table"
  define ev1 where "ev1 = map (\<lambda>row. RemoveRow row (table ! row))
      (rev (filter (\<lambda>row. lower (table ! row) \<notin> N) [0..<length table]))"
  define R where "R = refresh_running_processes False (Some (Inr procs)) table"
  have R: "R = fold (add_step (N - P)) U (t1, ev1)"
    unfolding R_def N_def P_def U_def t1_def ev1_def by (rule refresh_unfold)
  have UN: "lower ` set U = N" and UD: "distinct (map lower U)"
    using lower_unique_names [of procs] by (simp_all add: U_def N_def)
  have ev1_rem: "\<forall>e\<in>set ev1. is_removal e"
    by (auto simp: ev1_def)
  have ev1_names: "map event_name ev1 = rev (filter (\<lambda>x. lower x \<notin> N) table)"
  proof -
    have "map event_name ev1 =
        rev (map ((!) table) (filter (\<lambda>row. lower (table ! row) \<notin> N) [0..<length table]))"
      by (simp add: ev1_def rev_map comp_def)
    then show ?thesis
      using nth_filter_upt [of table "\<lambda>x. lower x \<notin> N"] by simp
  qed
  obtain ins where ins: "snd R = ev1 @ ins" "\<forall>e\<in>set ins. \<not> is_removal e"
      "map event_name ins = filter (\<lambda>n. lower n \<in> N - P) U"
    using add_fold_events [of "N - P" U t1 ev1] unfolding R by blast
  have tab: "set (fst R) = set t1 \<union> {n \<in> set U. lower n \<in> N - P}"
    and keep: "filter (\<lambda>x. lower x \<in> P) (fst R) = filter (\<lambda>x. lower x \<in> P) t1"
    using add_fold_table [of "N - P" U t1 ev1 "\<lambda>x. lower x \<in> P"] unfolding R by auto
  have rem_set: "{e \<in> set (snd R). is_removal e} = set ev1"
    using ev1_rem ins(2) by (auto simp: ins(1))
  have ins_set: "{e \<in> set (snd R). \<not> is_removal e} = set ins"
    using ev1_rem ins(2) by (auto simp: ins(1))
  have names1: "event_name ` set ev1 = {x \<in> set table. lower x \<notin> N}"
  proof -
    have "event_name ` set ev1 = set (map event_name ev1)" by simp
    then show ?thesis by (simp only: ev1_names) auto
  qed
  have names2: "event_name ` set ins = {n \<in> set U. lower n \<in> N - P}"
  proof -
    have "event_name ` set ins = set (map event_name ins)" by simp
    then show ?thesis by (simp only: ins(3)) auto
  qed
  have c1: "lower ` event_name ` {e \<in> set (snd R). is_removal e} = P - N"
    unfolding rem_set names1 by (auto simp: P_def)
  have c2: "lower ` event_name ` {e \<in> set (snd R). \<not> is_removal e} = N - P"
    unfolding ins_set names2 using UN by auto
  have c3: "distinct (map (\<lambda>e. lower (event_name e)) (snd R))"
  proof -
    have "map (\<lambda>e. lower (event_name e)) (snd R) =
        map lower (map event_name ev1) @ map lower (map event_name ins)"
      by (simp add: ins(1) comp_def)
    also have "\<dots> = rev (map lower (filter (\<lambda>x. lower x \<notin> N) table)) @
        map lower (filter (\<lambda>n. lower n \<in> N - P) U)"
      by (simp only: ev1_names ins(3) rev_map)
    finally have e: "map (\<lambda>e. lower (event_name e)) (snd R) =
        rev (map lower (filter (\<lambda>x. lower x \<notin> N) table)) @
        map lower (filter (\<lambda>n. lower n \<in> N - P) U)" .
    have d1: "distinct (map lower (filter (\<lambda>x. lower x \<notin> N) table))"
      using dt by (rule distinct_map_filter)
    have d2: "distinct (map lower (filter (\<lambda>n. lower n \<in> N - P) U))"
      using UD by (rule distinct_map_filter)
    have d3: "set (map lower (filter (\<lambda>x. lower x \<notin> N) table)) \<inter>
        set (map lower (filter (\<lambda>n. lower n \<in> N - P) U)) = {}"
      by (auto simp: P_def)
    show ?thesis
      unfolding e using d1 d2 d3 by simp
  qed
  have c4: "filter (\<lambda>x. lower x \<in> P) (fst R) = filter (\<lambda>x. lower x \<in> N) table"
  proof -
    have "\<forall>x\<in>set t1. lower x \<in> P"
      by (auto simp: t1_def P_def)
    then have "filter (\<lambda>x. lower x \<in> P) t1 = t1"
      by (simp only: filter_id_conv)
    with keep show ?thesis by (simp add: t1_def)
  qed
  have c5: "lower ` set (fst R) = N"
  proof
    show "lower ` set (fst R) \<subseteq> N"
      unfolding tab t1_def by auto
    show "N \<subseteq> lower ` set (fst R)"
    proof
      fix k
      assume k: "k \<in> N"
      show "k \<in> lower ` set (fst R)"
      proof (cases "k \<in> P")
        case True
        then obtain x where x: "x \<in> set table" "lower x = k"
          by (auto simp: P_def)
        with k have "x \<in> set t1"
          by (simp add: t1_def)
        with x(2) show ?thesis
          unfolding tab by blast
      next
        case False
        from k UN obtain n where n: "n \<in> set U" "lower n = k"
          by auto
        with False k have "n \<in> {n \<in> set U. lower n \<in> N - P}"
          by simp
        with n(2) show ?thesis
          unfolding tab by blast
      qed
    qed
  qed
  from c1 c2 c3 c4 c5 show ?thesis
    unfolding R_def N_def P_def by blast
qed

text \<open>
  A witness: the table shows "a" and "b", the live processes are "b", "c" and "B". The
  tick removes the row of "a" and inserts "c"; the row of "b" is not touched.
\<close>

theorem refresh_is_incremental_witness:
  "distinct (map lower [''a'', ''b'']) \<and>
   refresh_running_processes False (Some (Inr live_processes)) [''a'', ''b''] =
     ([''b'', ''c''], [RemoveRow 0 ''a'', InsertRow 1 ''c'']) \<and>
   lower ` set (fst (refresh_running_processes False (Some (Inr live_processes)) [''a'', ''b''])) =
     lower ` name ` set live_processes"
proof -
  have d: "distinct (map lower [''a'', ''b''])"
    by code_simp
  have r: "refresh_running_processes False (Some (Inr live_processes)) [''a'', ''b''] =
     ([''b'', ''c''], [RemoveRow 0 ''a'', InsertRow 1 ''c''])"
    by code_simp
  have s: "lower ` set (fst (refresh_running_processes False (Some (Inr live_processes))
        [''a'', ''b''])) = lower ` name ` set live_processes"
    using refresh_is_incremental [OF d, of live_processes] by (elim conjE)
  from d r s show ?thesis
    by (intro conjI)
qed

section \<open>Properties of down-sampling\<close>

subsection \<open>Rounding to a double\<close>












subsection \<open>The selected indices\<close>







end
